theory Spec2Isabelle
  imports Main "HOL-Library.AList" "HOL-Library.Sublist"
begin

section \<open>Python values, errors and string primitives\<close>

text \<open>
  The functions of \<^verbatim>\<open>main.py\<close> inspect the dynamic type of their arguments
  (\<^verbatim>\<open>isinstance(x, str)\<close>), so arguments are values of a small universe of Python
  values. A \<^verbatim>\<open>str\<close> is a \<^typ>\<open>string\<close>; its characters are the code points 0..255.
\<close>

datatype pyval = PNone | PInt int | PStr string | PList "pyval list"

datatype py_error = TypeError | StopIteration | DecodeError

fun is_str :: "pyval \<Rightarrow> bool" where
  "is_str (PStr s) = True"
| "is_str _ = False"

text \<open>\<^verbatim>\<open>str.isspace()\<close> of one character, for the code points 0..255.\<close>

definition isspace :: "char \<Rightarrow> bool" where
  "isspace c = (let n = (of_char c :: nat) in
     (9 \<le> n \<and> n \<le> 13) \<or> (28 \<le> n \<and> n \<le> 32) \<or> n = 133 \<or> n = 160)"

text \<open>\<^verbatim>\<open>str.lower()\<close>, which maps character by character on the code points 0..255.\<close>

definition lower_char :: "char \<Rightarrow> char" where
  "lower_char c = (let n = (of_char c :: nat) in
     if (65 \<le> n \<and> n \<le> 90) \<or> (192 \<le> n \<and> n \<le> 222 \<and> n \<noteq> 215)
     then char_of (n + 32) else c)"

definition lower :: "string \<Rightarrow> string" where
  "lower s = map lower_char s"



text \<open>\<^verbatim>\<open>str.strip()\<close> with no argument removes leading and trailing whitespace.\<close>

definition strip :: "string \<Rightarrow> string" where
  "strip s = rev (dropWhile isspace (rev (dropWhile isspace s)))"

text \<open>\<^verbatim>\<open>s[a:b]\<close> for indices \<open>0 \<le> a\<close> and \<open>0 \<le> b\<close>.\<close>

definition py_slice :: "string \<Rightarrow> nat \<Rightarrow> nat \<Rightarrow> string" where
  "py_slice s a b = take (b - a) (drop a s)"

text \<open>\<^verbatim>\<open>s.endswith(suffix)\<close>.\<close>

definition endswith :: "string \<Rightarrow> string \<Rightarrow> bool" where
  "endswith s suf = (length suf \<le> length s \<and> drop (length s - length suf) s = suf)"

section \<open>remove_comments\<close>

text \<open>The first loop of \<^verbatim>\<open>remove_comments\<close>: the index \<open>i\<close> and the nesting count
  are the loop's variables, the result is the index at which the loop ends.\<close>

function skip_leading :: "string \<Rightarrow> nat \<Rightarrow> int \<Rightarrow> nat" where
  "skip_leading content i nesting_count =
     (if i < length content then
        (if content ! i = CHR ''('' then skip_leading content (i + 1) (nesting_count + 1)
         else if content ! i = CHR '')'' then skip_leading content (i + 1) (nesting_count - 1)
         else if \<not> isspace (content ! i) \<and> nesting_count \<le> 0 then i
         else skip_leading content (i + 1) nesting_count)
      else i)"
  by pat_completeness auto
termination
  by (relation "measure (\<lambda>(content, i, n). length content - i)") auto

declare skip_leading.simps [simp del]

text \<open>The second loop.\<close>

function scan_token :: "string \<Rightarrow> nat \<Rightarrow> nat" where
  "scan_token content i =
     (if i < length content \<and> \<not> isspace (content ! i) \<and> content ! i \<noteq> CHR ''(''
      then scan_token content (i + 1) else i)"
  by pat_completeness auto
termination
  by (relation "measure (\<lambda>(content, i). length content - i)") auto

declare scan_token.simps [simp del]

fun remove_comments :: "pyval \<Rightarrow> py_error + string" where
  "remove_comments (PStr content) =
     (if length content \<le> 0 then Inr ''''
      else let start_index = skip_leading content 0 0;
               end_index = scan_token content start_index
           in Inr (py_slice content start_index end_index))"
| "remove_comments _ = Inl TypeError"

section \<open>cgi.parse_header\<close>

text \<open>
  \<^verbatim>\<open>verify_headers\<close> splits each header value with \<^verbatim>\<open>cgi.parse_header\<close> of the Python
  standard library, which is embedded here from the library's source together with the
  string methods it calls.
\<close>

text \<open>\<^verbatim>\<open>s.find(c, start)\<close> for a single character \<open>c\<close>: the lowest index from
  \<open>start\<close> on at which \<open>c\<close> stands, or \<open>-1\<close>.\<close>

definition find_char :: "string \<Rightarrow> char \<Rightarrow> nat \<Rightarrow> int" where
  "find_char s c start =
     (let n = start + length (takeWhile (\<lambda>x. x \<noteq> c) (drop start s))
      in if n < length s then int n else - 1)"

text \<open>\<^verbatim>\<open>s.count(ab)\<close> for a pattern of the two characters \<open>a\<close>, \<open>b\<close>: the number of
  occurrences that do not overlap, found from left to right.\<close>

fun count_pair :: "char \<Rightarrow> char \<Rightarrow> string \<Rightarrow> nat" where
  "count_pair a b (x # y # zs) =
     (if x = a \<and> y = b then 1 + count_pair a b zs else count_pair a b (y # zs))"
| "count_pair a b zs = 0"

text \<open>\<^verbatim>\<open>s.replace(ab, r)\<close> for a pattern of two characters and a replacement of one.\<close>

fun replace_pair :: "char \<Rightarrow> char \<Rightarrow> char \<Rightarrow> string \<Rightarrow> string" where
  "replace_pair a b r (x # y # zs) =
     (if x = a \<and> y = b then r # replace_pair a b r zs else x # replace_pair a b r (y # zs))"
| "replace_pair a b r zs = zs"

abbreviation dquote :: char where "dquote \<equiv> CHR 0x22"
abbreviation backslash :: char where "backslash \<equiv> CHR 0x5C"

lemma find_char_range:
  "find_char s c start = - 1 \<or> (int start \<le> find_char s c start \<and> find_char s c start < int (length s))"
  by (simp add: find_char_def Let_def)

text \<open>The inner loop of \<^verbatim>\<open>_parseparam\<close>, which moves \<^verbatim>\<open>end\<close> to the next \<^verbatim>\<open>;\<close>
  while the text before it holds an odd number of unescaped double quotes.\<close>

function quote_end :: "string \<Rightarrow> int \<Rightarrow> int" where
  "quote_end s end_pos =
     (if end_pos > 0 \<and>
         (int (count_list (take (nat end_pos) s) dquote)
            - int (count_pair backslash dquote (take (nat end_pos) s))) mod 2 \<noteq> 0
      then quote_end s (find_char s CHR '';'' (nat (end_pos + 1)))
      else end_pos)"
  by pat_completeness auto
termination
proof (relation "measure (\<lambda>(s, e). if e \<le> 0 then 0 else 1 + (length s - nat e))")
  show "wf (measure (\<lambda>(s, e). if e \<le> 0 then 0 else 1 + (length s - nat e)))"
    by simp
next
  fix s :: string and end_pos :: int
  assume "end_pos > 0 \<and>
         (int (count_list (take (nat end_pos) s) dquote)
            - int (count_pair backslash dquote (take (nat end_pos) s))) mod 2 \<noteq> 0"
  then have pos: "end_pos > 0" by simp
  from find_char_range [of s "CHR '';''" "nat (end_pos + 1)"] pos
  show "((s, find_char s CHR '';'' (nat (end_pos + 1))), (s, end_pos))
          \<in> measure (\<lambda>(s, e). if e \<le> 0 then 0 else 1 + (length s - nat e))"
    by auto
qed

declare quote_end.simps [simp del]

text \<open>\<^verbatim>\<open>_parseparam\<close>; the generator is consumed to its end by \<^verbatim>\<open>parse_header\<close>, so the
  model returns the list of the values it yields.\<close>

function parseparam :: "string \<Rightarrow> string list" where
  "parseparam s =
     (if take 1 s = '';'' then
        (let s1 = drop 1 s;
             e0 = find_char s1 CHR '';'' 0;
             e1 = quote_end s1 e0;
             e2 = (if e1 < 0 then int (length s1) else e1);
             f = take (nat e2) s1
         in strip f # parseparam (drop (nat e2) s1))
      else [])"
  by pat_completeness auto
termination
proof (relation "measure length")
  show "wf (measure (length :: string \<Rightarrow> nat))"
    by simp
next
  fix s s1 :: string and e0 e1 e2 :: int and f :: string
  assume "take 1 s = '';''" and "s1 = drop 1 s" and "f = take (nat e2) s1"
  then have "length s1 < length s"
    by (cases s) auto
  then show "(drop (nat e2) s1, s) \<in> measure length"
    by simp
qed

declare parseparam.simps [simp del]

text \<open>The body of the loop over the parameters: \<^verbatim>\<open>pdict[name] = value\<close> on a dictionary
  kept as an association list in insertion order; assigning to a key the dictionary
  already has replaces its value in place.\<close>

definition add_param :: "(string \<times> string) list \<Rightarrow> string \<Rightarrow> (string \<times> string) list" where
  "add_param pdict p =
     (let i = find_char p CHR ''='' 0 in
      if i \<ge> 0 then
        (let name = lower (strip (take (nat i) p));
             val = strip (drop (nat i + 1) p);
             val2 = (if length val \<ge> 2 \<and> hd val = dquote \<and> last val = dquote
                     then replace_pair backslash dquote dquote
                            (replace_pair backslash backslash backslash
                               (py_slice val 1 (length val - 1)))
                     else val)
         in AList.update name val2 pdict)
      else pdict)"

definition parse_header :: "string \<Rightarrow> py_error + (string \<times> (string \<times> string) list)" where
  "parse_header line =
     (case parseparam (CHR '';'' # line) of
        [] \<Rightarrow> Inl StopIteration
      | key # parts \<Rightarrow> Inr (key, foldl add_param [] parts))"

section \<open>verify_headers\<close>

text \<open>\<^verbatim>\<open>len(x)\<close> and iteration over \<open>x\<close>; both raise \<^verbatim>\<open>TypeError\<close> on \<^verbatim>\<open>None\<close> and on
  an integer. Iterating over a \<^verbatim>\<open>str\<close> yields its characters as strings.\<close>

fun py_len :: "pyval \<Rightarrow> py_error + nat" where
  "py_len (PList xs) = Inr (length xs)"
| "py_len (PStr s) = Inr (length s)"
| "py_len _ = Inl TypeError"

fun py_iter :: "pyval \<Rightarrow> py_error + pyval list" where
  "py_iter (PList xs) = Inr xs"
| "py_iter (PStr s) = Inr (map (\<lambda>c. PStr [c]) s)"
| "py_iter _ = Inl TypeError"

text \<open>The elements of \<^verbatim>\<open>accepted_set\<close>: the non-empty strings of \<^verbatim>\<open>accepted\<close>, lowercased.\<close>

fun accepted_results :: "pyval list \<Rightarrow> string list" where
  "accepted_results [] = []"
| "accepted_results (PStr result # rest) =
     (if length result > 0 then lower result # accepted_results rest
      else accepted_results rest)"
| "accepted_results (other # rest) = accepted_results rest"

text \<open>The loop over \<^verbatim>\<open>result_info.items()\<close>. Keys and values of the dictionary that
  \<^verbatim>\<open>parse_header\<close> builds are strings, so the two \<^verbatim>\<open>isinstance\<close> tests hold. The result
  \<open>Inr True\<close> is the \<^verbatim>\<open>return True\<close>; \<open>Inr False\<close> means that the loop ran to its end.\<close>

fun check_results :: "string \<Rightarrow> string set \<Rightarrow> (string \<times> string) list \<Rightarrow> py_error + bool" where
  "check_results method accepted_set [] = Inr False"
| "check_results method accepted_set ((auth_method, auth_result) # rest) =
     (case remove_comments (PStr auth_method) of
        Inl e \<Rightarrow> Inl e
      | Inr cm \<Rightarrow>
          (let clean_method = lower cm in
           if clean_method = method then
             (case remove_comments (PStr auth_result) of
                Inl e \<Rightarrow> Inl e
              | Inr cr \<Rightarrow>
                  (let clean_result = lower cr in
                   if clean_result \<in> accepted_set then Inr True
                   else check_results method accepted_set rest))
           else check_results method accepted_set rest))"

text \<open>The loop over \<^verbatim>\<open>headers\<close>.\<close>

fun check_headers :: "string \<Rightarrow> string set \<Rightarrow> string \<Rightarrow> pyval list \<Rightarrow> py_error + bool" where
  "check_headers method accepted_set authserv_domain [] = Inr False"
| "check_headers method accepted_set authserv_domain (header # rest) =
     (case header of
        PStr h \<Rightarrow>
          (case parse_header h of
             Inl e \<Rightarrow> Inl e
           | Inr (authserv_id, result_info) \<Rightarrow>
               (case remove_comments (PStr authserv_id) of
                  Inl e \<Rightarrow> Inl e
                | Inr a \<Rightarrow>
                    if endswith (lower a) authserv_domain then
                      (case check_results method accepted_set result_info of
                         Inl e \<Rightarrow> Inl e
                       | Inr found \<Rightarrow>
                           if found then Inr True
                           else check_headers method accepted_set authserv_domain rest)
                    else check_headers method accepted_set authserv_domain rest))
      | _ \<Rightarrow> check_headers method accepted_set authserv_domain rest)"

definition verify_headers :: "pyval \<Rightarrow> pyval \<Rightarrow> pyval \<Rightarrow> pyval \<Rightarrow> py_error + bool" where
  "verify_headers headers method accepted authserv_domain =
     (case py_len headers of
        Inl e \<Rightarrow> Inl e
      | Inr n \<Rightarrow>
          if n \<le> 0 then Inr False
          else (case method of
             PStr m \<Rightarrow>
               if length m \<le> 0 then Inr False
               else (case py_iter accepted of
                  Inl e \<Rightarrow> Inl e
                | Inr results \<Rightarrow>
                    (let accepted_set = set (accepted_results results) in
                     if accepted_set = {} then Inr False
                     else (case authserv_domain of
                        PStr d \<Rightarrow>
                          (case py_iter headers of
                             Inl e \<Rightarrow> Inl e
                           | Inr hs \<Rightarrow> check_headers (lower m) accepted_set (lower d) hs)
                      | _ \<Rightarrow> Inr False)))
           | _ \<Rightarrow> Inr False))"

text \<open>The default arguments of \<^verbatim>\<open>verify_headers\<close>.\<close>

definition DEFAULT_ACCEPT :: pyval where
  "DEFAULT_ACCEPT = PList [PStr ''pass'']"

definition DEFAULT_DOMAIN :: pyval where
  "DEFAULT_DOMAIN = PStr ''mx.google.com''"

section \<open>The text body built by deflect\<close>









section \<open>Notions used to state the properties\<close>

subsection \<open>Comment stripping\<close>

text \<open>The first loop of \<^verbatim>\<open>remove_comments\<close> seen on the rest of the string: the text from
  the index at which the loop stops, for the nesting count \<open>n\<close> reached so far.\<close>

fun skip_chars :: "int \<Rightarrow> string \<Rightarrow> string" where
  "skip_chars n [] = []"
| "skip_chars n (c # cs) =
     (if c = CHR ''('' then skip_chars (n + 1) cs
      else if c = CHR '')'' then skip_chars (n - 1) cs
      else if \<not> isspace c \<and> n \<le> 0 then c # cs
      else skip_chars n cs)"

text \<open>The characters that the second loop steps over.\<close>

definition token_char :: "char \<Rightarrow> bool" where
  "token_char c = (\<not> isspace c \<and> c \<noteq> CHR ''('')"

text \<open>The parenthesis-nesting level after the text \<open>p\<close>: opening minus closing
  parentheses.\<close>

definition nesting :: "string \<Rightarrow> int" where
  "nesting p = int (count_list p CHR ''('') - int (count_list p CHR '')'')"

text \<open>Index \<open>i\<close> holds a character at which content can start: not a parenthesis (these
  only move the nesting level), not whitespace, and at nesting level at most zero.\<close>

definition is_start :: "string \<Rightarrow> nat \<Rightarrow> bool" where
  "is_start s i = (i < length s \<and> s ! i \<noteq> CHR ''('' \<and> s ! i \<noteq> CHR '')'' \<and>
     \<not> isspace (s ! i) \<and> nesting (take i s) \<le> 0)"

text \<open>A string made of balanced parenthesized comments and whitespace only, read at
  depth \<open>d\<close>: every parenthesis closes one that is open, all are closed at the end, and
  outside the comments there is only whitespace.\<close>

fun only_comments :: "nat \<Rightarrow> string \<Rightarrow> bool" where
  "only_comments d [] = (d = 0)"
| "only_comments d (c # cs) =
     (if c = CHR ''('' then only_comments (Suc d) cs
      else if c = CHR '')'' then d > 0 \<and> only_comments (d - 1) cs
      else (d > 0 \<or> isspace c) \<and> only_comments d cs)"

subsection \<open>Header matching\<close>

text \<open>A token with its comments stripped, lowercased.\<close>

definition clean :: "string \<Rightarrow> string" where
  "clean s = (case remove_comments (PStr s) of Inr r \<Rightarrow> lower r | Inl e \<Rightarrow> [])"

text \<open>The domain test of \<^verbatim>\<open>verify_headers\<close> on the leading token of a header value.\<close>

definition domain_matches :: "string \<Rightarrow> string \<Rightarrow> bool" where
  "domain_matches authserv_id authserv_domain =
     endswith (clean authserv_id) (lower authserv_domain)"

text \<open>A header value satisfies a query when its leading token matches the domain and
  one of the pairs extracted from it names the method with an accepted result.\<close>

definition header_satisfies :: "string \<Rightarrow> string set \<Rightarrow> string \<Rightarrow> string \<Rightarrow> bool" where
  "header_satisfies method accepted_set authserv_domain h =
     (case parse_header h of
        Inl e \<Rightarrow> False
      | Inr (authserv_id, result_info) \<Rightarrow>
          domain_matches authserv_id authserv_domain \<and>
          (\<exists>(k, v) \<in> set result_info. clean k = lower method \<and> clean v \<in> accepted_set))"

text \<open>The name and the value that \<^verbatim>\<open>parse_header\<close> reads from one parameter, as in
  \<open>add_param\<close>; \<open>None\<close> for a parameter without \<^verbatim>\<open>=\<close>.\<close>

definition segment_pair :: "string \<Rightarrow> (string \<times> string) option" where
  "segment_pair p =
     (let i = find_char p CHR ''='' 0 in
      if i \<ge> 0 then
        (let name = lower (strip (take (nat i) p));
             val = strip (drop (nat i + 1) p);
             val2 = (if length val \<ge> 2 \<and> hd val = dquote \<and> last val = dquote
                     then replace_pair backslash dquote dquote
                            (replace_pair backslash backslash backslash
                               (py_slice val 1 (length val - 1)))
                     else val)
         in Some (name, val2))
      else None)"

text \<open>All the \<^verbatim>\<open>key=value\<close> pairs of a header value in the order in which they are
  written, repeated keys included.\<close>

definition header_pairs :: "string \<Rightarrow> (string \<times> string) list" where
  "header_pairs h = List.map_filter segment_pair (tl (parseparam (CHR '';'' # h)))"

subsection \<open>The forwarded body\<close>






subsection \<open>Scenario inputs\<close>

text \<open>The comment-heavy header value of the spec's scenario 4.\<close>

definition COMMENT_HEAVY :: string where
  "COMMENT_HEAVY = ''mx.google.com (foobar) 1 (baz); dkim (Because I like it) / 1 (One yay) = (wait for it) pass policy (A dot) . expired (surprised) = (as) 1362471462''"


section \<open>Lemmas\<close>

subsection \<open>The loops of remove_comments\<close>

lemma skip_leading_bounds:
  "i \<le> length s \<Longrightarrow> i \<le> skip_leading s i n \<and> skip_leading s i n \<le> length s"
proof (induction s i n rule: skip_leading.induct)
  case (1 content i nesting_count)
  show ?case
  proof (cases "i < length content")
    case True
    with 1 show ?thesis
      by (subst (1 2) skip_leading.simps) auto
  next
    case False
    with 1 show ?thesis
      by (subst (1 2) skip_leading.simps) auto
  qed
qed

lemma skip_leading_drop:
  "i \<le> length s \<Longrightarrow> drop (skip_leading s i n) s = skip_chars n (drop i s)"
proof (induction s i n rule: skip_leading.induct)
  case (1 content i nesting_count)
  show ?case
  proof (cases "i < length content")
    case True
    then have d: "drop i content = content ! i # drop (Suc i) content"
      by (simp add: Cons_nth_drop_Suc)
    from True 1 show ?thesis
      by (subst skip_leading.simps) (auto simp: d)
  next
    case False
    with 1 show ?thesis
      by (subst skip_leading.simps) auto
  qed
qed

lemma scan_token_eq:
  "i \<le> length s \<Longrightarrow> scan_token s i = i + length (takeWhile token_char (drop i s))"
proof (induction s i rule: scan_token.induct)
  case (1 content i)
  show ?case
  proof (cases "i < length content")
    case True
    then have d: "drop i content = content ! i # drop (Suc i) content"
      by (simp add: Cons_nth_drop_Suc)
    have tc: "token_char (content ! i) = (\<not> isspace (content ! i) \<and> content ! i \<noteq> CHR ''('')"
      by (simp add: token_char_def)
    from True 1 show ?thesis
      by (subst scan_token.simps) (auto simp: d tc)
  next
    case False
    with 1 show ?thesis
      by (subst scan_token.simps) auto
  qed
qed

lemma remove_comments_eq:
  "remove_comments (PStr s) = Inr (takeWhile token_char (skip_chars 0 s))"
proof (cases "s = []")
  case True
  then show ?thesis by simp
next
  case False
  let ?k = "skip_leading s 0 0"
  have k: "?k \<le> length s" using skip_leading_bounds [of 0 s 0] by simp
  have "py_slice s ?k (scan_token s ?k) = takeWhile token_char (drop ?k s)"
    using k by (simp add: py_slice_def scan_token_eq)
       (metis takeWhile_eq_take)
  also have "drop ?k s = skip_chars 0 s"
    using skip_leading_drop [of 0 s 0] by simp
  finally show ?thesis using False by (simp add: Let_def)
qed

lemma skip_chars_suffix: "\<exists>pre. s = pre @ skip_chars n s"
proof (induction s arbitrary: n)
  case Nil
  show ?case by simp
next
  case (Cons c cs)
  have step: "\<exists>pre. c # cs = pre @ skip_chars m cs" for m
  proof -
    from Cons [of m] obtain pre where "cs = pre @ skip_chars m cs" ..
    then have "c # cs = (c # pre) @ skip_chars m cs" by simp
    then show ?thesis ..
  qed
  have "c # cs = [] @ c # cs" by simp
  then have here: "\<exists>pre. c # cs = pre @ c # cs" ..
  have "skip_chars n (c # cs) = c # cs \<or> (\<exists>m. skip_chars n (c # cs) = skip_chars m cs)"
    by auto
  then show ?case
  proof (elim disjE exE)
    assume eq: "skip_chars n (c # cs) = c # cs"
    show ?thesis unfolding eq by (rule here)
  next
    fix m assume eq: "skip_chars n (c # cs) = skip_chars m cs"
    show ?thesis unfolding eq by (rule step)
  qed
qed

lemma skip_chars_hd:
  "skip_chars n s = c # cs \<Longrightarrow> c \<noteq> CHR ''('' \<and> c \<noteq> CHR '')'' \<and> \<not> isspace c"
  by (induction s arbitrary: n) (auto split: if_splits)

lemma skip_chars_fixed:
  "c \<noteq> CHR ''('' \<Longrightarrow> c \<noteq> CHR '')'' \<Longrightarrow> \<not> isspace c \<Longrightarrow> skip_chars 0 (c # cs) = c # cs"
  by simp

lemma skip_chars_start:
  "k < length s \<Longrightarrow> s ! k \<noteq> CHR ''('' \<Longrightarrow> s ! k \<noteq> CHR '')'' \<Longrightarrow> \<not> isspace (s ! k) \<Longrightarrow>
   n + nesting (take k s) \<le> 0 \<Longrightarrow>
   (\<forall>j<k. s ! j = CHR ''('' \<or> s ! j = CHR '')'' \<or> isspace (s ! j) \<or> n + nesting (take j s) > 0) \<Longrightarrow>
   skip_chars n s = drop k s"
proof (induction s arbitrary: n k)
  case Nil
  then show ?case by simp
next
  case (Cons c cs)
  show ?case
  proof (cases k)
    case 0
    with Cons.prems show ?thesis by (simp add: nesting_def)
  next
    case (Suc k')
    define n' where "n' = n + nesting [c]"
    have nest: "n + nesting (take (Suc j) (c # cs)) = n' + nesting (take j cs)" for j
      by (simp add: n'_def nesting_def)
    from Cons.prems(6) [rule_format, of 0] Suc
    have zero: "c = CHR ''('' \<or> c = CHR '')'' \<or> isspace c \<or> n > 0"
      by (simp add: nesting_def)
    have later: "\<forall>j<k'. cs ! j = CHR ''('' \<or> cs ! j = CHR '')'' \<or> isspace (cs ! j)
        \<or> n' + nesting (take j cs) > 0"
    proof (intro allI impI)
      fix j assume "j < k'"
      then have "Suc j < k" using Suc by simp
      from Cons.prems(6) [rule_format, OF this] show "cs ! j = CHR ''('' \<or> cs ! j = CHR '')'' \<or> isspace (cs ! j)
        \<or> n' + nesting (take j cs) > 0"
        using nest [of j] by simp
    qed
    have "skip_chars n' cs = drop k' cs"
      using Cons.prems(1-5) Suc nest [of k'] later
      by (intro Cons.IH) simp_all
    moreover have "skip_chars n (c # cs) = skip_chars n' cs"
      using zero by (auto simp: n'_def nesting_def)
    ultimately show ?thesis using Suc by simp
  qed
qed

lemma skip_chars_none:
  "(\<forall>j<length s. s ! j = CHR ''('' \<or> s ! j = CHR '')'' \<or> isspace (s ! j) \<or> n + nesting (take j s) > 0) \<Longrightarrow>
   skip_chars n s = []"
proof (induction s arbitrary: n)
  case Nil
  then show ?case by simp
next
  case (Cons c cs)
  define n' where "n' = n + nesting [c]"
  have nest: "n + nesting (take (Suc j) (c # cs)) = n' + nesting (take j cs)" for j
    by (simp add: n'_def nesting_def)
  from Cons.prems [rule_format, of 0]
  have zero: "c = CHR ''('' \<or> c = CHR '')'' \<or> isspace c \<or> n > 0"
    by (simp add: nesting_def)
  have later: "\<forall>j<length cs. cs ! j = CHR ''('' \<or> cs ! j = CHR '')'' \<or> isspace (cs ! j)
      \<or> n' + nesting (take j cs) > 0"
  proof (intro allI impI)
    fix j assume "j < length cs"
    then have "Suc j < length (c # cs)" by simp
    from Cons.prems [rule_format, OF this] show "cs ! j = CHR ''('' \<or> cs ! j = CHR '')'' \<or> isspace (cs ! j)
      \<or> n' + nesting (take j cs) > 0"
      using nest [of j] by simp
  qed
  have "skip_chars n' cs = []"
    using later by (rule Cons.IH)
  moreover have "skip_chars n (c # cs) = skip_chars n' cs"
    using zero by (auto simp: n'_def nesting_def)
  ultimately show ?case by simp
qed

lemma skip_chars_only_comments:
  "only_comments d s \<Longrightarrow> skip_chars (int d) s = []"
proof (induction s arbitrary: d)
  case Nil
  show ?case by simp
next
  case (Cons c cs)
  show ?case
  proof (cases "c = CHR ''(''")
    case True
    with Cons.prems have "only_comments (Suc d) cs" by simp
    then have "skip_chars (int (Suc d)) cs = []" by (rule Cons.IH)
    with True show ?thesis by (simp add: add.commute)
  next
    case False
    show ?thesis
    proof (cases "c = CHR '')''")
      case True
      with Cons.prems have d: "d > 0" and "only_comments (d - 1) cs" by simp_all
      then have "skip_chars (int (d - 1)) cs = []" by (intro Cons.IH)
      with True d show ?thesis by (simp add: of_nat_diff)
    next
      case other: False
      with False Cons.prems have c: "d > 0 \<or> isspace c" and "only_comments d cs" by simp_all
      then have "skip_chars (int d) cs = []" by (intro Cons.IH)
      with False other c show ?thesis by auto
    qed
  qed
qed

lemma skip_chars_plain:
  "\<forall>c\<in>set s. c \<noteq> CHR ''('' \<and> c \<noteq> CHR '')'' \<and> \<not> isspace c \<Longrightarrow> skip_chars 0 s = s"
  by (cases s) simp_all

lemma rc_idem: 
  "remove_comments (PStr s) = Inr r \<Longrightarrow> remove_comments (PStr r) = Inr r"
proof -
  assume "remove_comments (PStr s) = Inr r"
  then have r: "r = takeWhile token_char (skip_chars 0 s)"
    by (simp only: remove_comments_eq sum.inject)
  have all: "\<forall>c\<in>set r. token_char c"
    unfolding r by (auto dest: set_takeWhileD)
  have "skip_chars 0 r = r"
  proof (cases "skip_chars 0 s")
    case Nil
    then show ?thesis by (simp add: r)
  next
    case (Cons c cs)
    from skip_chars_hd [OF Cons] have c: "c \<noteq> CHR ''(''" "c \<noteq> CHR '')''" "\<not> isspace c"
      by simp_all
    then have "r = c # takeWhile token_char cs"
      by (simp add: r Cons token_char_def)
    with c show ?thesis by simp
  qed
  moreover have "takeWhile token_char r = r"
    using all by (simp add: takeWhile_eq_all_conv)
  ultimately show ?thesis by (simp only: remove_comments_eq)
qed

lemma takeWhile_run:
  "\<exists>e. k \<le> e \<and> e \<le> length s \<and> takeWhile P (drop k s) = take (e - k) (drop k s) \<and>
       (\<forall>j. k \<le> j \<and> j < e \<longrightarrow> P (s ! j)) \<and> (e < length s \<longrightarrow> \<not> P (s ! e))" if "k \<le> length s"
proof -
  define m where "m = length (takeWhile P (drop k s))"
  have m: "m \<le> length s - k"
    unfolding m_def using length_takeWhile_le [of P "drop k s"] by simp
  have run: "P (s ! j)" if "k \<le> j" "j < k + m" for j
  proof -
    from that have "j - k < m" by simp
    then have "P (drop k s ! (j - k))"
      unfolding m_def by (metis nth_mem set_takeWhileD takeWhile_nth length_takeWhile_le)
    with that m \<open>k \<le> length s\<close> show ?thesis by simp
  qed
  have stop: "\<not> P (s ! (k + m))" if "k + m < length s"
  proof -
    from that have "m < length (drop k s)" by simp
    then have "\<not> P (drop k s ! m)"
      unfolding m_def by (rule nth_length_takeWhile)
    with that show ?thesis by simp
  qed
  have "takeWhile P (drop k s) = take m (drop k s)"
    unfolding m_def by (rule takeWhile_eq_take)
  with m run stop that show ?thesis
    by (intro exI [of _ "k + m"]) auto
qed

subsection \<open>The loops of verify_headers\<close>

lemma clean_eq: "clean s = lower (takeWhile token_char (skip_chars 0 s))"
  by (simp only: clean_def remove_comments_eq sum.case)

lemma remove_comments_clean:
  "(case remove_comments (PStr s) of Inl e \<Rightarrow> Inl e | Inr r \<Rightarrow> f (lower r)) = f (clean s)"
  by (simp only: clean_def remove_comments_eq sum.case)

lemma check_results_eq:
  "check_results m acc items = Inr (\<exists>(k, v) \<in> set items. clean k = m \<and> clean v \<in> acc)"
proof (induction items)
  case Nil
  show ?case by simp
next
  case (Cons p items)
  obtain k v where p: "p = (k, v)" by (cases p)
  have rk: "remove_comments (PStr k) = Inr (takeWhile token_char (skip_chars 0 k))"
    by (rule remove_comments_eq)
  have rv: "remove_comments (PStr v) = Inr (takeWhile token_char (skip_chars 0 v))"
    by (rule remove_comments_eq)
  show ?case
    unfolding p check_results.simps rk rv
    by (simp add: Cons.IH clean_eq Let_def)
qed

lemma parseparam_semicolon: "\<exists>key parts. parseparam (CHR '';'' # line) = key # parts"
  by (subst parseparam.simps) (simp add: Let_def)

lemma parse_header_total: "\<exists>key items. parse_header h = Inr (key, items)"
proof -
  obtain key parts where "parseparam (CHR '';'' # h) = key # parts"
    using parseparam_semicolon by blast
  then show ?thesis by (simp add: parse_header_def)
qed

lemma check_headers_eq:
  "check_headers (lower m) acc (lower d) hs =
     Inr (\<exists>h. PStr h \<in> set hs \<and> header_satisfies m acc d h)"
proof (induction hs)
  case Nil
  show ?case by simp
next
  case (Cons x hs)
  show ?case
  proof (cases x)
    case (PStr h)
    obtain key items where ph: "parse_header h = Inr (key, items)"
      using parse_header_total by blast
    have rk: "remove_comments (PStr key) = Inr (takeWhile token_char (skip_chars 0 key))"
      by (rule remove_comments_eq)
    have sat: "header_satisfies m acc d h =
        (endswith (clean key) (lower d) \<and> (\<exists>(k, v) \<in> set items. clean k = lower m \<and> clean v \<in> acc))"
      by (simp add: header_satisfies_def ph domain_matches_def)
    show ?thesis
      unfolding PStr check_headers.simps pyval.case ph sum.case prod.case rk check_results_eq
      using sat by (auto simp: Cons.IH clean_eq)
  qed (simp_all add: Cons.IH)
qed

lemma set_accepted_results:
  "set (accepted_results results) = {lower r | r. PStr r \<in> set results \<and> r \<noteq> []}"
  by (induction results rule: accepted_results.induct) auto

lemma verify_headers_list:
  assumes "hs \<noteq> []" and "m \<noteq> []" and "py_iter accepted = Inr results"
    and "set (accepted_results results) \<noteq> {}"
  shows "verify_headers (PList hs) (PStr m) accepted (PStr d) =
     Inr (\<exists>h. PStr h \<in> set hs \<and> header_satisfies m (set (accepted_results results)) d h)"
  using assms by (simp add: verify_headers_def check_headers_eq)

lemma endswith_suffix: "endswith s suf = suffix suf s"
proof
  assume "endswith s suf"
  then have "s = take (length s - length suf) s @ suf"
    by (metis append_take_drop_id endswith_def)
  then show "suffix suf s" by (metis suffixI)
next
  assume "suffix suf s"
  then obtain pre where "s = pre @ suf" by (auto simp: suffix_def)
  then show "endswith s suf" by (simp add: endswith_def)
qed

subsection \<open>The dictionary built by parse_header\<close>

lemma add_param_segment:
  "add_param pdict p =
     (case segment_pair p of None \<Rightarrow> pdict | Some (k, v) \<Rightarrow> AList.update k v pdict)"
  by (simp add: add_param_def segment_pair_def Let_def)

lemma foldl_add_param_map_of:
  "map_of (foldl add_param d ps) = map_of (rev (List.map_filter segment_pair ps) @ d)"
proof (induction ps arbitrary: d)
  case Nil
  show ?case by (simp add: List.map_filter_simps)
next
  case (Cons p ps)
  show ?case
  proof (cases "segment_pair p")
    case None
    then have ap: "add_param d p = d"
      by (simp add: add_param_segment)
    show ?thesis
      by (simp add: Cons.IH ap List.map_filter_simps None)
  next
    case (Some kv)
    obtain k v where kv: "kv = (k, v)" by (cases kv)
    have ap: "add_param d p = AList.update k v d"
      using Some kv by (simp add: add_param_segment)
    have "map_of (AList.update k v d) = map_of ((k, v) # d)"
      by (simp add: update_conv')
    then show ?thesis
      by (simp add: Cons.IH ap List.map_filter_simps Some kv)
  qed
qed

lemma foldl_add_param_distinct:
  "distinct (map fst d) \<Longrightarrow> distinct (map fst (foldl add_param d ps))"
proof (induction ps arbitrary: d)
  case Nil
  then show ?case by simp
next
  case (Cons p ps)
  have "distinct (map fst (add_param d p))"
    using Cons.prems by (auto simp: add_param_segment distinct_update split: option.splits)
  then show ?case by (simp add: Cons.IH)
qed

lemma map_of_rev_last:
  "map_of (rev xs) k = Some v \<longleftrightarrow> (\<exists>pre post. xs = pre @ (k, v) # post \<and> k \<notin> fst ` set post)"
proof (induction xs rule: rev_induct)
  case Nil
  show ?case by simp
next
  case (snoc x xs)
  obtain k' v' where x: "x = (k', v')" by (cases x)
  show ?case
  proof (cases "k' = k")
    case True
    have "(\<exists>pre post. xs @ [x] = pre @ (k, v) # post \<and> k \<notin> fst ` set post) \<longleftrightarrow> v' = v"
    proof
      assume "\<exists>pre post. xs @ [x] = pre @ (k, v) # post \<and> k \<notin> fst ` set post"
      then obtain pre post where e: "xs @ [x] = pre @ (k, v) # post" and n: "k \<notin> fst ` set post"
        by blast
      show "v' = v"
      proof (cases post rule: rev_cases)
        case Nil
        with e x show ?thesis by simp
      next
        case (snoc post' y)
        with e have "y = x" by simp
        with snoc n x True show ?thesis by force
      qed
    next
      assume "v' = v"
      then have "xs @ [x] = xs @ (k, v) # []" using x True by simp
      then show "\<exists>pre post. xs @ [x] = pre @ (k, v) # post \<and> k \<notin> fst ` set post"
        by force
    qed
    then show ?thesis using x True by auto
  next
    case False
    have "(\<exists>pre post. xs @ [x] = pre @ (k, v) # post \<and> k \<notin> fst ` set post) \<longleftrightarrow>
          (\<exists>pre post. xs = pre @ (k, v) # post \<and> k \<notin> fst ` set post)"
    proof
      assume "\<exists>pre post. xs @ [x] = pre @ (k, v) # post \<and> k \<notin> fst ` set post"
      then obtain pre post where e: "xs @ [x] = pre @ (k, v) # post" and n: "k \<notin> fst ` set post"
        by blast
      show "\<exists>pre post. xs = pre @ (k, v) # post \<and> k \<notin> fst ` set post"
      proof (cases post rule: rev_cases)
        case Nil
        with e x False show ?thesis by simp
      next
        case (snoc post' y)
        with e have "xs = pre @ (k, v) # post'" by simp
        moreover from snoc n have "k \<notin> fst ` set post'" by auto
        ultimately show ?thesis by blast
      qed
    next
      assume "\<exists>pre post. xs = pre @ (k, v) # post \<and> k \<notin> fst ` set post"
      then obtain pre post where e: "xs = pre @ (k, v) # post" and n: "k \<notin> fst ` set post"
        by blast
      then have "xs @ [x] = pre @ (k, v) # (post @ [x])" by simp
      moreover have "k \<notin> fst ` set (post @ [x])" using n x False by auto
      ultimately show "\<exists>pre post. xs @ [x] = pre @ (k, v) # post \<and> k \<notin> fst ` set post"
        by blast
    qed
    then show ?thesis using x False snoc.IH by simp
  qed
qed

lemma result_info_pairs:
  assumes "parse_header h = Inr (authserv_id, result_info)"
  shows "(k, v) \<in> set result_info \<longleftrightarrow>
     (\<exists>pre post. header_pairs h = pre @ (k, v) # post \<and> k \<notin> fst ` set post)"
proof -
  obtain key parts where pp: "parseparam (CHR '';'' # h) = key # parts"
    using parseparam_semicolon by blast
  with assms have ri: "result_info = foldl add_param [] parts"
    by (simp add: parse_header_def)
  have d: "distinct (map fst result_info)"
    unfolding ri by (rule foldl_add_param_distinct) simp
  have "(k, v) \<in> set result_info \<longleftrightarrow> map_of result_info k = Some v"
    using d by simp
  also have "\<dots> \<longleftrightarrow> map_of (rev (header_pairs h)) k = Some v"
    by (simp add: ri foldl_add_param_map_of header_pairs_def pp)
  finally show ?thesis by (simp only: map_of_rev_last)
qed

lemma header_satisfies_domain:
  "header_satisfies m acc d h \<Longrightarrow>
   \<exists>a ri. parse_header h = Inr (a, ri) \<and> domain_matches a d"
  by (auto simp: header_satisfies_def split: sum.splits)

lemma verify_headers_True_satisfies:
  assumes "verify_headers (PList hs) meth accepted (PStr d) = Inr True"
  shows "\<exists>m acc h. PStr h \<in> set hs \<and> header_satisfies m acc d h"
proof -
  from assms obtain m where m: "meth = PStr m"
    by (cases meth) (auto simp: verify_headers_def split: if_splits)
  from assms m obtain results where r: "py_iter accepted = Inr results"
    by (cases "py_iter accepted") (auto simp: verify_headers_def split: if_splits)
  from assms m r have "check_headers (lower m) (set (accepted_results results)) (lower d) hs = Inr True"
    by (auto simp: verify_headers_def Let_def split: if_splits)
  then show ?thesis
    by (auto simp: check_headers_eq)
qed



lemma verify_headers_last_pair:
  assumes "m \<noteq> []" and "py_iter accepted = Inr results"
    and "\<exists>r. PStr r \<in> set results \<and> r \<noteq> []"
    and "parse_header h = Inr (authserv_id, result_info)"
    and "domain_matches authserv_id d"
  shows "verify_headers (PList [PStr h]) (PStr m) accepted (PStr d) =
     Inr (\<exists>pre k v post. header_pairs h = pre @ (k, v) # post \<and> k \<notin> fst ` set post \<and>
            clean k = lower m \<and> clean v \<in> {lower r | r. PStr r \<in> set results \<and> r \<noteq> []})"
proof -
  let ?acc = "{lower r | r. PStr r \<in> set results \<and> r \<noteq> []}"
  have ne: "set (accepted_results results) \<noteq> {}"
    using assms(3) by (auto simp: set_accepted_results)
  have "verify_headers (PList [PStr h]) (PStr m) accepted (PStr d) =
      Inr (\<exists>x. PStr x \<in> set [PStr h] \<and> header_satisfies m (set (accepted_results results)) d x)"
    using assms(1,2) ne by (intro verify_headers_list) simp_all
  also have "(\<exists>x. PStr x \<in> set [PStr h] \<and> header_satisfies m (set (accepted_results results)) d x)
      \<longleftrightarrow> header_satisfies m ?acc d h"
    by (simp add: set_accepted_results)
  also have "header_satisfies m ?acc d h \<longleftrightarrow>
      (\<exists>k v. (k, v) \<in> set result_info \<and> clean k = lower m \<and> clean v \<in> ?acc)"
    using assms(4,5) by (auto simp: header_satisfies_def)
  also have "\<dots> \<longleftrightarrow> (\<exists>pre k v post. header_pairs h = pre @ (k, v) # post \<and> k \<notin> fst ` set post \<and>
            clean k = lower m \<and> clean v \<in> ?acc)"
    unfolding result_info_pairs [OF assms(4)] by blast
  finally show ?thesis .
qed


lemma check_results_True:
  "check_results m acc ri = Inr True \<longleftrightarrow> (\<exists>(k, v) \<in> set ri. clean k = m \<and> clean v \<in> acc)"
  by (simp add: check_results_eq)

lemma header_satisfies_suffix:
  "header_satisfies m acc d h \<longleftrightarrow>
     (\<exists>a ri. parse_header h = Inr (a, ri) \<and> suffix (lower d) (clean a) \<and>
        check_results (lower m) acc ri = Inr True)"
proof -
  obtain a ri where p: "parse_header h = Inr (a, ri)"
    using parse_header_total by blast
  show ?thesis
    by (simp add: header_satisfies_def p domain_matches_def endswith_suffix check_results_True)
qed

lemma verify_headers_suffix:
  assumes "hs \<noteq> []" and "m \<noteq> []" and "py_iter accepted = Inr results"
    and "accepted_results results \<noteq> []"
  shows "verify_headers (PList hs) (PStr m) accepted (PStr d) =
     Inr (\<exists>h a ri. PStr h \<in> set hs \<and> parse_header h = Inr (a, ri) \<and>
            suffix (lower d) (clean a) \<and>
            check_results (lower m) (set (accepted_results results)) ri = Inr True)"
proof -
  have ne: "set (accepted_results results) \<noteq> {}"
    using assms(4) by simp
  have "verify_headers (PList hs) (PStr m) accepted (PStr d) =
      Inr (\<exists>h. PStr h \<in> set hs \<and> header_satisfies m (set (accepted_results results)) d h)"
    using assms(1-3) ne by (rule verify_headers_list)
  then show ?thesis
    by (simp only: header_satisfies_suffix) blast
qed


section \<open>Properties of remove_comments\<close>

text \<open>
  Claim C2. For every string, \<^verbatim>\<open>remove_comments\<close> returns the first maximal run of
  non-comment, non-whitespace characters. The parentheses themselves only raise and
  lower the nesting level; the content starts at the first other character that is not
  whitespace and stands at nesting level at most zero (index \<open>k\<close>, with no such index
  before it), and it ends at the next whitespace or opening parenthesis (index \<open>e\<close>) or
  at the end of the string. Where no character can start the content the result is
  empty. So a string without parentheses and whitespace is returned unchanged, and a
  string of balanced comments and whitespace only (the empty string too) gives the
  empty string.
\<close>

theorem remove_comments_first_run:
  "(is_start s k \<and> (\<forall>j<k. \<not> is_start s j) \<longrightarrow>
      (\<exists>e. k \<le> e \<and> e \<le> length s \<and> remove_comments (PStr s) = Inr (py_slice s k e) \<and>
           (\<forall>j. k \<le> j \<and> j < e \<longrightarrow> \<not> isspace (s ! j) \<and> s ! j \<noteq> CHR ''('') \<and>
           (e < length s \<longrightarrow> isspace (s ! e) \<or> s ! e = CHR ''(''))) \<and>
   ((\<forall>i<length s. \<not> is_start s i) \<longrightarrow> remove_comments (PStr s) = Inr '''') \<and>
   ((\<forall>c\<in>set s. c \<noteq> CHR ''('' \<and> c \<noteq> CHR '')'' \<and> \<not> isspace c) \<longrightarrow>
      remove_comments (PStr s) = Inr s) \<and>
   (only_comments 0 s \<longrightarrow> remove_comments (PStr s) = Inr '''')"
proof (intro conjI impI)
  assume a: "is_start s k \<and> (\<forall>j<k. \<not> is_start s j)"
  then have k: "k < length s" by (simp add: is_start_def)
  have "skip_chars 0 s = drop k s"
    using a by (intro skip_chars_start) (auto simp: is_start_def)
  then have rc: "remove_comments (PStr s) = Inr (takeWhile token_char (drop k s))"
    by (simp only: remove_comments_eq)
  from takeWhile_run [of k s token_char] k
  obtain e where e: "k \<le> e" "e \<le> length s"
      "takeWhile token_char (drop k s) = take (e - k) (drop k s)"
      "\<forall>j. k \<le> j \<and> j < e \<longrightarrow> token_char (s ! j)" "e < length s \<longrightarrow> \<not> token_char (s ! e)"
    by auto
  show "\<exists>e. k \<le> e \<and> e \<le> length s \<and> remove_comments (PStr s) = Inr (py_slice s k e) \<and>
           (\<forall>j. k \<le> j \<and> j < e \<longrightarrow> \<not> isspace (s ! j) \<and> s ! j \<noteq> CHR ''('') \<and>
           (e < length s \<longrightarrow> isspace (s ! e) \<or> s ! e = CHR ''('')"
    using e rc by (intro exI [of _ e]) (auto simp: py_slice_def token_char_def)
next
  assume "\<forall>i<length s. \<not> is_start s i"
  then have "skip_chars 0 s = []"
    by (intro skip_chars_none) (auto simp: is_start_def)
  then show "remove_comments (PStr s) = Inr ''''"
    by (simp only: remove_comments_eq) simp
next
  assume a: "\<forall>c\<in>set s. c \<noteq> CHR ''('' \<and> c \<noteq> CHR '')'' \<and> \<not> isspace c"
  then have "skip_chars 0 s = s" by (rule skip_chars_plain)
  moreover have "takeWhile token_char s = s"
    using a by (simp add: takeWhile_eq_all_conv token_char_def)
  ultimately show "remove_comments (PStr s) = Inr s"
    by (simp only: remove_comments_eq)
next
  assume "only_comments 0 s"
  then have "skip_chars (int 0) s = []" by (rule skip_chars_only_comments)
  then show "remove_comments (PStr s) = Inr ''''"
    by (simp only: remove_comments_eq) simp
qed

theorem remove_comments_first_run_witness:
  "is_start ''(a) bc d'' 4 \<and> \<not> (\<exists>j<4. is_start ''(a) bc d'' j) \<and>
   (\<exists>e. 4 \<le> e \<and> e \<le> 8 \<and>
      remove_comments (PStr ''(a) bc d'') = Inr (py_slice ''(a) bc d'' 4 e)) \<and>
   remove_comments (PStr ''(a) bc d'') = Inr ''bc'' \<and>
   \<not> (\<exists>c\<in>set ''dkim''. c = CHR ''('' \<or> c = CHR '')'' \<or> isspace c) \<and>
   remove_comments (PStr ''dkim'') = Inr ''dkim'' \<and>
   only_comments 0 '' (all (nested) comments) '' \<and>
   \<not> (\<exists>i<length '' (all (nested) comments) ''. is_start '' (all (nested) comments) '' i) \<and>
   remove_comments (PStr '' (all (nested) comments) '') = Inr ''''"
proof -
  have h1: "is_start ''(a) bc d'' 4 \<and> (\<forall>j<4. \<not> is_start ''(a) bc d'' j)"
    by (simp add: is_start_def nesting_def isspace_def eval_nat_numeral All_less_Suc)
  have h2: "\<forall>i<length '' (all (nested) comments) ''. \<not> is_start '' (all (nested) comments) '' i"
    by (simp add: is_start_def nesting_def isspace_def eval_nat_numeral All_less_Suc)
  have h3: "\<forall>c\<in>set ''dkim''. c \<noteq> CHR ''('' \<and> c \<noteq> CHR '')'' \<and> \<not> isspace c"
    by (simp add: isspace_def)
  have h4: "only_comments 0 '' (all (nested) comments) ''"
    by (simp add: isspace_def)
  have c1: "\<exists>e. 4 \<le> e \<and> e \<le> 8 \<and>
      remove_comments (PStr ''(a) bc d'') = Inr (py_slice ''(a) bc d'' 4 e)"
    using remove_comments_first_run [of "''(a) bc d''" 4] h1 by auto
  have c1': "remove_comments (PStr ''(a) bc d'') = Inr ''bc''"
    by code_simp
  have c2: "remove_comments (PStr '' (all (nested) comments) '') = Inr ''''"
    using remove_comments_first_run [of "'' (all (nested) comments) ''" 0] h2 by blast
  have c3: "remove_comments (PStr ''dkim'') = Inr ''dkim''"
    using remove_comments_first_run [of "''dkim''" 0] h3 by blast
  from h1 h2 h3 h4 c1 c1' c2 c3 show ?thesis by blast
qed

text \<open>
  Claim C8. \<^verbatim>\<open>remove_comments\<close> raises \<^verbatim>\<open>TypeError\<close> exactly when its argument is not a
  string, and on every string it returns a result.
\<close>

theorem remove_comments_type_error:
  "(remove_comments v = Inl TypeError \<longleftrightarrow> \<not> is_str v) \<and>
   (is_str v \<longrightarrow> (\<exists>r. remove_comments v = Inr r))"
  by (cases v) (simp_all add: Let_def)

theorem remove_comments_type_error_witness:
  "\<not> is_str (PInt 42) \<and> remove_comments (PInt 42) = Inl TypeError \<and>
   \<not> is_str PNone \<and> remove_comments PNone = Inl TypeError \<and>
   \<not> is_str (PList []) \<and> remove_comments (PList []) = Inl TypeError \<and>
   is_str (PStr ''(wait for it) fail'') \<and>
   (\<exists>r. remove_comments (PStr ''(wait for it) fail'') = Inr r)"
  using remove_comments_type_error [of "PInt 42"] remove_comments_type_error [of PNone]
    remove_comments_type_error [of "PList []"]
    remove_comments_type_error [of "PStr ''(wait for it) fail''"]
  by simp

text \<open>
  Claim C9. \<^verbatim>\<open>remove_comments\<close> is idempotent: on every string it returns a string on
  which it returns that same string again.
\<close>

theorem remove_comments_idempotent:
  "\<exists>r. remove_comments (PStr s) = Inr r \<and> remove_comments (PStr r) = Inr r"
  using rc_idem [of s] remove_comments_eq [of s] by blast

text \<open>
  Claim C10. The string that \<^verbatim>\<open>remove_comments\<close> returns is a contiguous part of its
  argument and holds neither whitespace nor an opening parenthesis. It may hold a closing
  parenthesis, as the second example below does.
\<close>

theorem remove_comments_substring:
  "\<exists>pre r post. remove_comments (PStr s) = Inr r \<and> s = pre @ r @ post \<and>
     (\<forall>c\<in>set r. \<not> isspace c \<and> c \<noteq> CHR ''('')"
proof -
  obtain pre where pre: "s = pre @ skip_chars 0 s"
    using skip_chars_suffix [of s 0] ..
  let ?r = "takeWhile token_char (skip_chars 0 s)"
  let ?post = "dropWhile token_char (skip_chars 0 s)"
  have "s = pre @ ?r @ ?post"
    using pre by simp
  moreover have "\<forall>c\<in>set ?r. \<not> isspace c \<and> c \<noteq> CHR ''(''"
    by (auto dest: set_takeWhileD simp: token_char_def)
  moreover have "remove_comments (PStr s) = Inr ?r"
    by (rule remove_comments_eq)
  ultimately show ?thesis by blast
qed

theorem remove_comments_substring_witness:
  "remove_comments (PStr '' a)b (c)'') = Inr ''a)b'' \<and>
   (\<exists>pre post. '' a)b (c)'' = pre @ ''a)b'' @ post) \<and>
   \<not> (\<exists>c\<in>set ''a)b''. isspace c \<or> c = CHR ''('') \<and> CHR '')'' \<in> set ''a)b''"
proof -
  have c: "remove_comments (PStr '' a)b (c)'') = Inr ''a)b''" by code_simp
  from remove_comments_substring [of "'' a)b (c)''"] c
  show ?thesis by auto
qed

section \<open>Properties of verify_headers\<close>

text \<open>
  Claim C1. The claim reads a header value as containing every \<^verbatim>\<open>key=value\<close> pair that is
  written in it (\<open>header_pairs\<close>). In the header value below, reported by
  \<^verbatim>\<open>mx.google.com\<close>, the method \<^verbatim>\<open>dkim\<close> has the result \<^verbatim>\<open>pass\<close> for one signature and
  \<^verbatim>\<open>fail\<close> for another: it holds a pair whose key is the method and whose value is
  accepted, and \<^verbatim>\<open>verify_headers\<close> returns false, because the dictionary of
  \<^verbatim>\<open>cgi.parse_header\<close> keeps the last value of a repeated key only. With the two pairs in
  the other order the result is true.
\<close>

theorem verify_headers_repeated_dkim:
  "header_pairs ''mx.google.com; dkim=pass header.d=example.com; dkim=fail header.d=example.net'' =
     [(''dkim'', ''pass header.d=example.com''), (''dkim'', ''fail header.d=example.net'')] \<and>
   parse_header ''mx.google.com; dkim=pass header.d=example.com; dkim=fail header.d=example.net'' =
     Inr (''mx.google.com'', [(''dkim'', ''fail header.d=example.net'')]) \<and>
   suffix (lower ''mx.google.com'') (clean ''mx.google.com'') \<and>
   clean ''dkim'' = lower ''dkim'' \<and>
   clean ''pass header.d=example.com'' = ''pass'' \<and>
   ''pass'' \<in> set (accepted_results [PStr ''pass'']) \<and>
   verify_headers
     (PList [PStr ''mx.google.com; dkim=pass header.d=example.com; dkim=fail header.d=example.net''])
     (PStr ''dkim'') (PList [PStr ''pass'']) (PStr ''mx.google.com'') = Inr False \<and>
   verify_headers
     (PList [PStr ''mx.google.com; dkim=fail header.d=example.net; dkim=pass header.d=example.com''])
     (PStr ''dkim'') (PList [PStr ''pass'']) (PStr ''mx.google.com'') = Inr True"
proof -
  let ?h = "''mx.google.com; dkim=pass header.d=example.com; dkim=fail header.d=example.net''"
  have 1: "header_pairs ?h =
     [(''dkim'', ''pass header.d=example.com''), (''dkim'', ''fail header.d=example.net'')]"
    by code_simp
  have 2: "parse_header ?h = Inr (''mx.google.com'', [(''dkim'', ''fail header.d=example.net'')])"
    by code_simp
  have c: "clean ''mx.google.com'' = ''mx.google.com''" "lower ''mx.google.com'' = ''mx.google.com''"
    by code_simp+
  have 3: "suffix (lower ''mx.google.com'') (clean ''mx.google.com'')"
    unfolding c by simp
  have 4: "clean ''dkim'' = lower ''dkim''"
    by code_simp
  have 5: "clean ''pass header.d=example.com'' = ''pass''"
    by code_simp
  have 6: "''pass'' \<in> set (accepted_results [PStr ''pass''])"
    by code_simp
  have 7: "verify_headers (PList [PStr ?h]) (PStr ''dkim'') (PList [PStr ''pass''])
      (PStr ''mx.google.com'') = Inr False"
    by code_simp
  have 8: "verify_headers
     (PList [PStr ''mx.google.com; dkim=fail header.d=example.net; dkim=pass header.d=example.com''])
     (PStr ''dkim'') (PList [PStr ''pass'']) (PStr ''mx.google.com'') = Inr True"
    by code_simp
  from 1 2 3 4 5 6 7 8 show ?thesis by simp
qed

text \<open>
  Claim C7, as amended. \<^verbatim>\<open>verify_headers\<close> returns false and does not raise when the
  headers are a list or a string of length zero, whatever the other arguments are; when
  the headers are a list or a string and the method is not a string or is the empty
  string, whatever \<open>accepted\<close> and the domain are; when the headers are a list or a string
  and \<open>accepted\<close> is a list or a string with no non-empty string among its elements; and
  when the headers are a list or a string, \<open>accepted\<close> is a list or a string and the domain
  is not a string. It raises \<^verbatim>\<open>TypeError\<close> when the headers have no length (\<^verbatim>\<open>None\<close>, an
  integer), and when the headers are not empty, the method is a non-empty string and
  \<open>accepted\<close> cannot be iterated.
\<close>

theorem verify_headers_no_match:
  "(py_len headers = Inr 0 \<longrightarrow>
      verify_headers headers meth accepted authserv_domain = Inr False) \<and>
   (py_len headers = Inr n \<and> (\<not> is_str meth \<or> meth = PStr '''') \<longrightarrow>
      verify_headers headers meth accepted authserv_domain = Inr False) \<and>
   (py_len headers = Inr n \<and> py_iter accepted = Inr results \<and>
      (\<forall>r. PStr r \<in> set results \<longrightarrow> r = '''') \<longrightarrow>
      verify_headers headers meth accepted authserv_domain = Inr False) \<and>
   (py_len headers = Inr n \<and> py_iter accepted = Inr results \<and> \<not> is_str authserv_domain \<longrightarrow>
      verify_headers headers meth accepted authserv_domain = Inr False) \<and>
   (py_len headers = Inl e \<longrightarrow>
      verify_headers headers meth accepted authserv_domain = Inl e) \<and>
   (py_len headers = Inr n \<and> 0 < n \<and> meth = PStr m \<and> m \<noteq> '''' \<and> py_iter accepted = Inl e \<longrightarrow>
      verify_headers headers meth accepted authserv_domain = Inl e)"
proof (intro conjI impI)
  assume "py_len headers = Inr 0"
  then show "verify_headers headers meth accepted authserv_domain = Inr False"
    by (simp add: verify_headers_def)
next
  assume "py_len headers = Inr n \<and> (\<not> is_str meth \<or> meth = PStr '''')"
  then show "verify_headers headers meth accepted authserv_domain = Inr False"
    by (cases meth) (auto simp: verify_headers_def)
next
  assume a: "py_len headers = Inr n \<and> py_iter accepted = Inr results \<and>
      (\<forall>r. PStr r \<in> set results \<longrightarrow> r = '''')"
  then have "set (accepted_results results) = {}"
    by (auto simp: set_accepted_results)
  with a show "verify_headers headers meth accepted authserv_domain = Inr False"
    by (cases meth) (auto simp: verify_headers_def)
next
  assume a: "py_len headers = Inr n \<and> py_iter accepted = Inr results \<and> \<not> is_str authserv_domain"
  then show "verify_headers headers meth accepted authserv_domain = Inr False"
    by (cases meth; cases authserv_domain) (auto simp: verify_headers_def Let_def)
next
  assume "py_len headers = Inl e"
  then show "verify_headers headers meth accepted authserv_domain = Inl e"
    by (simp add: verify_headers_def)
next
  assume "py_len headers = Inr n \<and> 0 < n \<and> meth = PStr m \<and> m \<noteq> '''' \<and> py_iter accepted = Inl e"
  then show "verify_headers headers meth accepted authserv_domain = Inl e"
    by (simp add: verify_headers_def)
qed

theorem verify_headers_no_match_witness:
  "verify_headers (PList []) (PStr ''spf'') DEFAULT_ACCEPT DEFAULT_DOMAIN = Inr False \<and>
   verify_headers (PStr '''') (PStr ''spf'') (PInt 42) PNone = Inr False \<and>
   verify_headers (PList [PStr ''mx.google.com; spf=pass'']) (PInt 42) PNone PNone = Inr False \<and>
   verify_headers (PList [PStr ''mx.google.com; spf=pass'']) (PStr '''') PNone PNone = Inr False \<and>
   verify_headers (PList [PStr ''mx.google.com; spf=pass'']) (PStr ''spf'') (PList []) DEFAULT_DOMAIN
     = Inr False \<and>
   verify_headers (PList [PStr ''mx.google.com; spf=pass'']) (PStr ''spf'')
     (PList [PStr '''', PInt 42, PNone]) DEFAULT_DOMAIN = Inr False \<and>
   verify_headers (PList [PStr ''mx.google.com; spf=pass'']) (PStr ''spf'') DEFAULT_ACCEPT PNone
     = Inr False \<and>
   verify_headers (PList [PStr ''mx.google.com; spf=pass'']) (PStr ''spf'') DEFAULT_ACCEPT (PInt 42)
     = Inr False \<and>
   verify_headers PNone (PStr ''spf'') DEFAULT_ACCEPT DEFAULT_DOMAIN = Inl TypeError \<and>
   verify_headers (PList [PStr ''mx.google.com; spf=pass'']) (PStr ''spf'') PNone DEFAULT_DOMAIN
     = Inl TypeError \<and>
   verify_headers (PList [PStr ''mx.google.com; spf=pass'']) (PStr ''spf'') DEFAULT_ACCEPT
     DEFAULT_DOMAIN = Inr True"
proof -
  let ?h = "PList [PStr ''mx.google.com; spf=pass'']"
  let ?junk = "[PStr '''', PInt 42, PNone]"
  have 1: "verify_headers (PList []) (PStr ''spf'') DEFAULT_ACCEPT DEFAULT_DOMAIN = Inr False"
    using verify_headers_no_match [where headers = "PList []"] by simp
  have 2: "verify_headers (PStr '''') (PStr ''spf'') (PInt 42) PNone = Inr False"
    using verify_headers_no_match [where headers = "PStr ''''"] by simp
  have 3: "verify_headers ?h (PInt 42) PNone PNone = Inr False"
    using verify_headers_no_match [where headers = ?h and n = 1 and meth = "PInt 42"] by simp
  have 4: "verify_headers ?h (PStr '''') PNone PNone = Inr False"
    using verify_headers_no_match [where headers = ?h and n = 1 and meth = "PStr ''''"] by simp
  have 5: "verify_headers ?h (PStr ''spf'') (PList []) DEFAULT_DOMAIN = Inr False"
    using verify_headers_no_match [where headers = ?h and n = 1 and accepted = "PList []"
        and results = "[]"] by simp
  have 6: "verify_headers ?h (PStr ''spf'') (PList ?junk) DEFAULT_DOMAIN = Inr False"
    using verify_headers_no_match [where headers = ?h and n = 1 and accepted = "PList ?junk"
        and results = ?junk] by simp
  have 7: "verify_headers ?h (PStr ''spf'') DEFAULT_ACCEPT PNone = Inr False"
    using verify_headers_no_match [where headers = ?h and n = 1 and accepted = DEFAULT_ACCEPT
        and results = "[PStr ''pass'']" and authserv_domain = PNone]
    by (simp add: DEFAULT_ACCEPT_def)
  have 8: "verify_headers ?h (PStr ''spf'') DEFAULT_ACCEPT (PInt 42) = Inr False"
    using verify_headers_no_match [where headers = ?h and n = 1 and accepted = DEFAULT_ACCEPT
        and results = "[PStr ''pass'']" and authserv_domain = "PInt 42"]
    by (simp add: DEFAULT_ACCEPT_def)
  have 9: "verify_headers PNone (PStr ''spf'') DEFAULT_ACCEPT DEFAULT_DOMAIN = Inl TypeError"
    using verify_headers_no_match [where headers = PNone and e = TypeError] by simp
  have 10: "verify_headers ?h (PStr ''spf'') PNone DEFAULT_DOMAIN = Inl TypeError"
    using verify_headers_no_match [where headers = ?h and n = 1 and meth = "PStr ''spf''"
        and m = "''spf''" and accepted = PNone and e = TypeError] by simp
  have 11: "verify_headers ?h (PStr ''spf'') DEFAULT_ACCEPT DEFAULT_DOMAIN = Inr True"
    by code_simp
  from 1 2 3 4 5 6 7 8 9 10 11 show ?thesis by simp
qed

text \<open>
  The claim C7 as it is written lets the other arguments be any value. With the method
  not a string and \<^verbatim>\<open>None\<close> for the headers, and with the domain not a string and an
  integer for \<open>accepted\<close>, \<^verbatim>\<open>verify_headers\<close> raises \<^verbatim>\<open>TypeError\<close>.
\<close>

theorem verify_headers_raises_counterexample:
  "\<not> is_str (PInt 42) \<and>
   verify_headers PNone (PInt 42) DEFAULT_ACCEPT DEFAULT_DOMAIN = Inl TypeError \<and>
   \<not> is_str PNone \<and>
   verify_headers (PList [PStr ''mx.google.com; spf=pass'']) (PStr ''spf'') (PInt 42) PNone
     = Inl TypeError"
  by (simp add: verify_headers_def)

text \<open>
  Claim C6. The domain test of \<^verbatim>\<open>verify_headers\<close> is a case-insensitive suffix test: for
  arguments that pass the preconditions, the result is true exactly when some header value
  is a string whose leading token, comment-stripped and lowercased, has the lowercased
  domain as a suffix, and whose parameters pass the loop over the results; header values
  that fail the test play no part. With the empty domain the test holds of every leading
  token, the empty one too, so the result depends on the parameters alone. The domain
  \<^verbatim>\<open>mx.google.com\<close> matches the leading tokens \<^verbatim>\<open>mx.google.com\<close> and
  \<^verbatim>\<open>gmr-mx.google.com\<close>. Two domains that differ in case only give the same result. The
  last five facts run \<^verbatim>\<open>verify_headers\<close> on header values that match and that do not.
\<close>

theorem verify_headers_domain_suffix:
  assumes "hs \<noteq> []" and "m \<noteq> []" and "py_iter accepted = Inr results"
    and "accepted_results results \<noteq> []"
  shows "verify_headers (PList hs) (PStr m) accepted (PStr d) =
      Inr (\<exists>h a ri. PStr h \<in> set hs \<and> parse_header h = Inr (a, ri) \<and>
             suffix (lower d) (clean a) \<and>
             check_results (lower m) (set (accepted_results results)) ri = Inr True) \<and>
    verify_headers (PList hs) (PStr m) accepted (PStr '''') =
      Inr (\<exists>h a ri. PStr h \<in> set hs \<and> parse_header h = Inr (a, ri) \<and>
             check_results (lower m) (set (accepted_results results)) ri = Inr True) \<and>
    (\<forall>h a ri. PStr h \<in> set hs \<and> parse_header h = Inr (a, ri) \<and>
         (clean a = ''mx.google.com'' \<or> clean a = ''gmr-mx.google.com'') \<and>
         check_results (lower m) (set (accepted_results results)) ri = Inr True \<longrightarrow>
       verify_headers (PList hs) (PStr m) accepted (PStr ''mx.google.com'') = Inr True) \<and>
    (lower d' = lower d \<longrightarrow>
       verify_headers (PList hs) (PStr m) accepted (PStr d') =
       verify_headers (PList hs) (PStr m) accepted (PStr d)) \<and>
    verify_headers (PList [PStr ''mx.google.com; spf=pass'']) (PStr ''spf'') DEFAULT_ACCEPT
       (PStr ''mx.google.com'') = Inr True \<and>
    verify_headers (PList [PStr ''gmr-mx.google.com; spf=pass'']) (PStr ''spf'') DEFAULT_ACCEPT
       (PStr ''mx.google.com'') = Inr True \<and>
    verify_headers (PList [PStr ''GMR-MX.Google.Com (relay); spf=pass'']) (PStr ''spf'')
       DEFAULT_ACCEPT (PStr ''Mx.GOOGLE.com'') = Inr True \<and>
    verify_headers (PList [PStr ''mx.google.com.example.org; spf=pass'']) (PStr ''spf'')
       DEFAULT_ACCEPT (PStr ''mx.google.com'') = Inr False \<and>
    verify_headers (PList [PStr ''x.google.com; spf=pass'']) (PStr ''spf'') DEFAULT_ACCEPT
       (PStr ''mx.google.com'') = Inr False"
proof (intro conjI allI impI)
  note vs = verify_headers_suffix [OF assms]
  show "verify_headers (PList hs) (PStr m) accepted (PStr d) =
      Inr (\<exists>h a ri. PStr h \<in> set hs \<and> parse_header h = Inr (a, ri) \<and>
             suffix (lower d) (clean a) \<and>
             check_results (lower m) (set (accepted_results results)) ri = Inr True)"
    by (rule vs)
  show "verify_headers (PList hs) (PStr m) accepted (PStr '''') =
      Inr (\<exists>h a ri. PStr h \<in> set hs \<and> parse_header h = Inr (a, ri) \<and>
             check_results (lower m) (set (accepted_results results)) ri = Inr True)"
    by (simp add: vs lower_def)
  show "verify_headers (PList hs) (PStr m) accepted (PStr ''mx.google.com'') = Inr True"
    if "PStr h \<in> set hs \<and> parse_header h = Inr (a, ri) \<and>
         (clean a = ''mx.google.com'' \<or> clean a = ''gmr-mx.google.com'') \<and>
         check_results (lower m) (set (accepted_results results)) ri = Inr True" for h a ri
  proof -
    have l: "lower ''mx.google.com'' = ''mx.google.com''"
      by code_simp
    have "''gmr-mx.google.com'' = ''gmr-'' @ ''mx.google.com''"
      by simp
    then have s: "suffix ''mx.google.com'' ''gmr-mx.google.com''"
      by (rule suffixI)
    from that s have "suffix (lower ''mx.google.com'') (clean a)"
      unfolding l by auto
    with that show ?thesis
      unfolding vs by blast
  qed
  show "verify_headers (PList hs) (PStr m) accepted (PStr d') =
       verify_headers (PList hs) (PStr m) accepted (PStr d)" if "lower d' = lower d"
    using that by (simp add: vs)
  show "verify_headers (PList [PStr ''mx.google.com; spf=pass'']) (PStr ''spf'') DEFAULT_ACCEPT
       (PStr ''mx.google.com'') = Inr True"
    by code_simp
  show "verify_headers (PList [PStr ''gmr-mx.google.com; spf=pass'']) (PStr ''spf'') DEFAULT_ACCEPT
       (PStr ''mx.google.com'') = Inr True"
    by code_simp
  show "verify_headers (PList [PStr ''GMR-MX.Google.Com (relay); spf=pass'']) (PStr ''spf'')
       DEFAULT_ACCEPT (PStr ''Mx.GOOGLE.com'') = Inr True"
    by code_simp
  show "verify_headers (PList [PStr ''mx.google.com.example.org; spf=pass'']) (PStr ''spf'')
       DEFAULT_ACCEPT (PStr ''mx.google.com'') = Inr False"
    by code_simp
  show "verify_headers (PList [PStr ''x.google.com; spf=pass'']) (PStr ''spf'') DEFAULT_ACCEPT
       (PStr ''mx.google.com'') = Inr False"
    by code_simp
qed

theorem verify_headers_domain_suffix_witness:
  "check_results (lower ''spf'') (set (accepted_results [PStr ''pass''])) [(''spf'', ''pass'')]
     = Inr True \<and>
   parse_header ''GMR-MX.google.com (relay); spf=pass'' = Inr (''GMR-MX.google.com (relay)'', [(''spf'', ''pass'')]) \<and>
   clean ''GMR-MX.google.com (relay)'' = ''gmr-mx.google.com'' \<and>
   verify_headers (PList [PStr ''example.com; spf=pass'', PStr ''GMR-MX.google.com (relay); spf=pass''])
      (PStr ''spf'') (PList [PStr ''pass'']) (PStr ''mx.google.com'') = Inr True \<and>
   verify_headers (PList [PStr ''example.com; spf=pass'', PStr ''GMR-MX.google.com (relay); spf=pass''])
      (PStr ''spf'') (PList [PStr ''pass'']) (PStr ''MX.GOOGLE.COM'') = Inr True \<and>
   parse_header ''example.com; spf=pass'' = Inr (''example.com'', [(''spf'', ''pass'')]) \<and>
   \<not> suffix (lower ''mx.google.com'') (clean ''example.com'') \<and>
   verify_headers (PList [PStr ''example.com; spf=pass'']) (PStr ''spf'') (PList [PStr ''pass''])
      (PStr ''mx.google.com'') = Inr False \<and>
   verify_headers (PList [PStr ''example.com; spf=pass'']) (PStr ''spf'') (PList [PStr ''pass''])
      (PStr '''') = Inr True"
proof -
  let ?a = "''example.com; spf=pass''"
  let ?b = "''GMR-MX.google.com (relay); spf=pass''"
  have cr: "check_results (lower ''spf'') (set (accepted_results [PStr ''pass''])) [(''spf'', ''pass'')]
     = Inr True"
    by code_simp
  have pa: "parse_header ?a = Inr (''example.com'', [(''spf'', ''pass'')])"
    by code_simp
  have pb: "parse_header ?b = Inr (''GMR-MX.google.com (relay)'', [(''spf'', ''pass'')])"
    by code_simp
  have cb: "clean ''GMR-MX.google.com (relay)'' = ''gmr-mx.google.com''"
    by code_simp
  have ca: "clean ''example.com'' = ''example.com''"
    by code_simp
  have l: "lower ''mx.google.com'' = ''mx.google.com''" "lower ''MX.GOOGLE.COM'' = ''mx.google.com''"
    by code_simp+
  have ns: "\<not> suffix (lower ''mx.google.com'') (clean ''example.com'')"
    unfolding l ca by (simp add: suffix_def)
  have a1: "[PStr ?a, PStr ?b] \<noteq> []" and a1': "[PStr ?a] \<noteq> []" and a2: "''spf'' \<noteq> []"
    and a3: "py_iter (PList [PStr ''pass'']) = Inr [PStr ''pass'']"
    and a4: "accepted_results [PStr ''pass''] \<noteq> []"
    by simp_all
  note two = verify_headers_domain_suffix [OF a1 a2 a3 a4]
  note one = verify_headers_domain_suffix [OF a1' a2 a3 a4]
  have mem: "PStr ?b \<in> set [PStr ?a, PStr ?b]" and mem': "PStr ?a \<in> set [PStr ?a]"
    by simp_all
  have t: "verify_headers (PList [PStr ?a, PStr ?b]) (PStr ''spf'') (PList [PStr ''pass''])
      (PStr ''mx.google.com'') = Inr True"
    using two mem pb cb cr by blast
  have t2: "verify_headers (PList [PStr ?a, PStr ?b]) (PStr ''spf'') (PList [PStr ''pass''])
      (PStr ''MX.GOOGLE.COM'') = Inr True"
  proof -
    have "lower ''MX.GOOGLE.COM'' = lower ''mx.google.com''"
      unfolding l ..
    with two [where d = "''mx.google.com''" and d' = "''MX.GOOGLE.COM''"] t show ?thesis
      by metis
  qed
  have none: "\<not> (\<exists>h a ri. PStr h \<in> set [PStr ?a] \<and> parse_header h = Inr (a, ri) \<and>
      suffix (lower ''mx.google.com'') (clean a) \<and>
      check_results (lower ''spf'') (set (accepted_results [PStr ''pass''])) ri = Inr True)"
  proof
    assume "\<exists>h a ri. PStr h \<in> set [PStr ?a] \<and> parse_header h = Inr (a, ri) \<and>
      suffix (lower ''mx.google.com'') (clean a) \<and>
      check_results (lower ''spf'') (set (accepted_results [PStr ''pass''])) ri = Inr True"
    then obtain h a ri where h: "PStr h \<in> set [PStr ?a]" and p: "parse_header h = Inr (a, ri)"
      and s: "suffix (lower ''mx.google.com'') (clean a)"
      by blast
    from h have "h = ?a" by simp
    with p pa have "a = ''example.com''" by simp
    with s ns show False by simp
  qed
  have f: "verify_headers (PList [PStr ?a]) (PStr ''spf'') (PList [PStr ''pass''])
      (PStr ''mx.google.com'') = Inr False"
  proof -
    have "verify_headers (PList [PStr ?a]) (PStr ''spf'') (PList [PStr ''pass''])
        (PStr ''mx.google.com'') =
      Inr (\<exists>h a ri. PStr h \<in> set [PStr ?a] \<and> parse_header h = Inr (a, ri) \<and>
        suffix (lower ''mx.google.com'') (clean a) \<and>
        check_results (lower ''spf'') (set (accepted_results [PStr ''pass''])) ri = Inr True)"
      by (rule one [THEN conjunct1])
    also have "\<dots> = Inr False"
      using none by (simp only: eq_False [THEN iffD2])
    finally show ?thesis .
  qed
  have some: "\<exists>h a ri. PStr h \<in> set [PStr ?a] \<and> parse_header h = Inr (a, ri) \<and>
      check_results (lower ''spf'') (set (accepted_results [PStr ''pass''])) ri = Inr True"
    by (intro exI conjI) (rule mem' pa cr)+
  have e: "verify_headers (PList [PStr ?a]) (PStr ''spf'') (PList [PStr ''pass''])
      (PStr '''') = Inr True"
  proof -
    have "verify_headers (PList [PStr ?a]) (PStr ''spf'') (PList [PStr ''pass'']) (PStr '''') =
      Inr (\<exists>h a ri. PStr h \<in> set [PStr ?a] \<and> parse_header h = Inr (a, ri) \<and>
        check_results (lower ''spf'') (set (accepted_results [PStr ''pass''])) ri = Inr True)"
      by (rule one [THEN conjunct2, THEN conjunct1])
    also have "\<dots> = Inr True"
      using some by (simp only: eq_True [THEN iffD1])
    finally show ?thesis .
  qed
  from cr pb cb t t2 pa ns f e show ?thesis by blast
qed

text \<open>
  Claim C5, as amended. On the comment-heavy header value of scenario 4,
  \<^verbatim>\<open>verify_headers\<close> returns true for the method \<^verbatim>\<open>dkim\<close> with \<^verbatim>\<open>pass\<close> accepted, and
  false for the method \<^verbatim>\<open>policy\<close> with \<^verbatim>\<open>1362471462\<close> accepted: the header value has
  one parameter after its leading token, whose key is read up to the first \<^verbatim>\<open>=\<close> and
  cleans to \<^verbatim>\<open>dkim\<close>; the text \<^verbatim>\<open>policy . expired = 1362471462\<close> is part of that
  parameter's value and no pair of its own.
\<close>

theorem comment_heavy_verdicts:
  "header_pairs COMMENT_HEAVY =
     [(''dkim (because i like it) / 1 (one yay)'',
       ''(wait for it) pass policy (A dot) . expired (surprised) = (as) 1362471462'')] \<and>
   verify_headers (PList [PStr COMMENT_HEAVY]) (PStr ''dkim'') (PList [PStr ''pass''])
      DEFAULT_DOMAIN = Inr True \<and>
   verify_headers (PList [PStr COMMENT_HEAVY]) (PStr ''policy'') (PList [PStr ''1362471462''])
      DEFAULT_DOMAIN = Inr False"
proof (intro conjI)
  show "header_pairs COMMENT_HEAVY =
     [(''dkim (because i like it) / 1 (one yay)'',
       ''(wait for it) pass policy (A dot) . expired (surprised) = (as) 1362471462'')]"
    by code_simp
  show "verify_headers (PList [PStr COMMENT_HEAVY]) (PStr ''dkim'') (PList [PStr ''pass''])
      DEFAULT_DOMAIN = Inr True"
    by code_simp
  show "verify_headers (PList [PStr COMMENT_HEAVY]) (PStr ''policy'') (PList [PStr ''1362471462''])
      DEFAULT_DOMAIN = Inr False"
    by code_simp
qed

text \<open>
  The claim C5 as it is written also asks for true on the method \<^verbatim>\<open>policy\<close>, which fails.
\<close>

theorem comment_heavy_policy_counterexample:
  "verify_headers (PList [PStr COMMENT_HEAVY]) (PStr ''policy'') (PList [PStr ''1362471462''])
      DEFAULT_DOMAIN = Inr False \<and>
   \<not> (verify_headers (PList [PStr COMMENT_HEAVY]) (PStr ''dkim'') (PList [PStr ''pass''])
         DEFAULT_DOMAIN = Inr True \<and>
      verify_headers (PList [PStr COMMENT_HEAVY]) (PStr ''policy'') (PList [PStr ''1362471462''])
         DEFAULT_DOMAIN = Inr True)"
proof -
  have "verify_headers (PList [PStr COMMENT_HEAVY]) (PStr ''policy'') (PList [PStr ''1362471462''])
      DEFAULT_DOMAIN = Inr False"
    by code_simp
  then show ?thesis by simp
qed

text \<open>
  Claim C4. In the first header value below the method \<^verbatim>\<open>spf\<close> occurs twice as a key,
  the first time with the accepted result \<^verbatim>\<open>pass\<close>; the leading token matches the domain,
  and \<^verbatim>\<open>verify_headers\<close> returns false: the dictionary of \<^verbatim>\<open>cgi.parse_header\<close> keeps the
  last value of a repeated key only. In the second header value the two occurrences
  differ in their key text, both are kept, and the result is true.
\<close>

theorem verify_headers_first_occurrence_lost:
  "header_pairs ''mx.google.com; spf=pass; spf=fail'' = [(''spf'', ''pass''), (''spf'', ''fail'')] \<and>
   domain_matches ''mx.google.com'' ''mx.google.com'' \<and>
   clean ''spf'' = lower ''spf'' \<and>
   clean ''pass'' \<in> set (accepted_results [PStr ''pass'']) \<and>
   verify_headers (PList [PStr ''mx.google.com; spf=pass; spf=fail'']) (PStr ''spf'')
     DEFAULT_ACCEPT DEFAULT_DOMAIN = Inr False \<and>
   header_pairs ''mx.google.com; spf=pass; spf (second) =fail'' =
     [(''spf'', ''pass''), (''spf (second)'', ''fail'')] \<and>
   verify_headers (PList [PStr ''mx.google.com; spf=pass; spf (second) =fail'']) (PStr ''spf'')
     DEFAULT_ACCEPT DEFAULT_DOMAIN = Inr True"
proof (intro conjI)
  show "header_pairs ''mx.google.com; spf=pass; spf=fail'' = [(''spf'', ''pass''), (''spf'', ''fail'')]"
    by code_simp
  show "domain_matches ''mx.google.com'' ''mx.google.com''"
    by code_simp
  show "clean ''spf'' = lower ''spf''"
    by code_simp
  show "clean ''pass'' \<in> set (accepted_results [PStr ''pass''])"
    by code_simp
  show "verify_headers (PList [PStr ''mx.google.com; spf=pass; spf=fail'']) (PStr ''spf'')
     DEFAULT_ACCEPT DEFAULT_DOMAIN = Inr False"
    by code_simp
  show "header_pairs ''mx.google.com; spf=pass; spf (second) =fail'' =
     [(''spf'', ''pass''), (''spf (second)'', ''fail'')]"
    by code_simp
  show "verify_headers (PList [PStr ''mx.google.com; spf=pass; spf (second) =fail'']) (PStr ''spf'')
     DEFAULT_ACCEPT DEFAULT_DOMAIN = Inr True"
    by code_simp
qed

section \<open>Properties of the forwarded body\<close>




end
